theory Spec2Isabelle
  imports Complex_Main "HOL-Library.Word"
begin

section \<open>The result table of \<open>cugraph.sssp\<close> as the notebook reads it\<close>

text \<open>
  \<^verbatim>\<open>notebooks/traversal/SSSP.ipynb\<close> receives from \<open>cugraph.sssp(G, 1)\<close> a table
  \<open>df\<close> with the columns \<open>vertex\<close>, \<open>distance\<close> and \<open>predecessor\<close> and reads
  it cell by cell: \<open>df['vertex'][i]\<close>, \<open>df['distance'][v]\<close>, \<open>df['predecessor'][v]\<close>.
  The table is a list of rows, row \<open>k\<close> carrying the label \<open>k\<close>. A distance is a
  64-bit float: a finite float is the real number it denotes (the notebook does no
  arithmetic on distances, it only truncates them with \<open>int\<close>), and \<open>+infinity\<close>
  is a value of its own. Vertex identifiers and predecessors are the integers of the
  columns, so the sentinel of a vertex without predecessor is an integer as well.
\<close>

datatype dist = Finite real | Infinity

record row =
  vertex :: int
  distance :: dist
  predecessor :: int

type_synonym dataframe = "row list"

datatype error = KeyError | IndexError | OverflowError

text \<open>\<open>df[col][k]\<close>: the cell of column \<open>col\<close> in the row labelled \<open>k\<close>; a label
  that the table does not have raises.\<close>

definition cell :: "(row \<Rightarrow> 'a) \<Rightarrow> dataframe \<Rightarrow> int \<Rightarrow> error + 'a" where
  "cell col df k =
     (if 0 \<le> k \<and> k < int (length df) then Inr (col (df ! nat k)) else Inl KeyError)"

text \<open>Python's \<open>int(x)\<close> on a float truncates towards zero and raises on an infinity.\<close>

fun py_int :: "dist \<Rightarrow> error + int" where
  "py_int (Finite x) = Inr (if 0 \<le> x then \<lfloor>x\<rfloor> else \<lceil>x\<rceil>)"
| "py_int Infinity = Inl OverflowError"

text \<open>\<open>int(df['distance'][v])\<close>.\<close>

definition int_distance :: "dataframe \<Rightarrow> int \<Rightarrow> error + int" where
  "int_distance df v = (case cell distance df v of Inl e \<Rightarrow> Inl e | Inr x \<Rightarrow> py_int x)"

text \<open>\<open>[None] * k\<close>: the empty list when \<open>k \<le> 0\<close>.\<close>

definition none_list :: "int \<Rightarrow> int option list" where
  "none_list k = replicate (nat k) None"

text \<open>\<open>path[i] = v\<close>, the item assignment of a Python list: position \<open>i\<close> when
  \<open>0 \<le> i < len\<close>, position \<open>len + i\<close> when \<open>-len \<le> i < 0\<close>, and an
  \<open>IndexError\<close> for every other \<open>i\<close>.\<close>

definition set_item :: "'a list \<Rightarrow> int \<Rightarrow> 'a \<Rightarrow> error + 'a list" where
  "set_item xs i v =
     (if 0 \<le> i \<and> i < int (length xs) then Inr (xs[nat i := v])
      else if i < 0 \<and> - int (length xs) \<le> i then Inr (xs[nat (int (length xs) + i) := v])
      else Inl IndexError)"

section \<open>The path reconstruction loop of the notebook\<close>

text \<open>
  \<^verbatim>\<open>
    while d > 0 :
        v = df['predecessor'][v]
        d = int(df['distance'][v])
        path[d] = v
  \<close>
  The loop may run forever (a predecessor cycle among vertices of positive distance), so
  it is a partial function: \<open>None\<close> is the loop that does not return, \<open>Some (Inl e)\<close>
  the exception \<open>e\<close>, \<open>Some (Inr (path, k))\<close> the list \<open>path\<close> at the loop's exit.
  The last argument counts the iterations made so far; nothing in the loop reads it.
\<close>

partial_function (option) walk ::
  "dataframe \<Rightarrow> int \<Rightarrow> int \<Rightarrow> int option list \<Rightarrow> nat \<Rightarrow> (error + int option list \<times> nat) option"
where
  "walk df v d path k =
     (if d > 0 then
        (case cell predecessor df v of
           Inl e \<Rightarrow> Some (Inl e)
         | Inr v' \<Rightarrow>
            (case int_distance df v' of
               Inl e \<Rightarrow> Some (Inl e)
             | Inr d' \<Rightarrow>
                (case set_item path d' (Some v') of
                   Inl e \<Rightarrow> Some (Inl e)
                 | Inr path' \<Rightarrow> walk df v' d' path' (Suc k))))
      else Some (Inr (path, k)))"

text \<open>
  The body of the \<open>for i in range(len(df))\<close> loop, up to the \<open>print\<close>:
  \<^verbatim>\<open>
    v = df['vertex'][i]
    d = int(df['distance'][v])
    path = [None] * (int(d) + 1)
    path[d] = v
    while d > 0 : ...
  \<close>
\<close>

definition path_to :: "dataframe \<Rightarrow> int \<Rightarrow> (error + int option list \<times> nat) option" where
  "path_to df i =
     (case cell vertex df i of
        Inl e \<Rightarrow> Some (Inl e)
      | Inr v \<Rightarrow>
         (case int_distance df v of
            Inl e \<Rightarrow> Some (Inl e)
          | Inr d \<Rightarrow>
             (case set_item (none_list (d + 1)) d (Some v) of
                Inl e \<Rightarrow> Some (Inl e)
              | Inr path \<Rightarrow> walk df v d path 0)))"



section \<open>What the notebook printed\<close>

text \<open>
  The output cell of the loop, \<open>(0) path: [1, 0]\<close> to \<open>(33) path: [1, 13, 33]\<close>,
  for the Karate club graph with identifiers shifted to zero, all weights \<open>1.0\<close> and
  source \<open>1\<close>: entry \<open>i\<close> is the list printed on line \<open>(i)\<close>.
\<close>

definition printed_paths :: "int list list" where
  "printed_paths =
    [[1, 0], [1], [1, 2], [1, 3], [1, 0, 4], [1, 0, 5], [1, 0, 6], [1, 7], [1, 30, 8],
     [1, 2, 9], [1, 0, 10], [1, 0, 11], [1, 0, 12], [1, 13], [1, 13, 33, 14],
     [1, 13, 33, 15], [1, 0, 5, 16], [1, 17], [1, 13, 33, 18], [1, 19], [1, 13, 33, 20],
     [1, 21], [1, 13, 33, 22], [1, 13, 33, 23], [1, 0, 31, 24], [1, 0, 31, 25],
     [1, 13, 33, 26], [1, 2, 27], [1, 2, 28], [1, 13, 33, 29], [1, 30], [1, 0, 31],
     [1, 30, 32], [1, 13, 33]]"

text \<open>
  A table on which the loop prints these lines (lemma \<open>karate_prints\<close> below): the
  loop allocates \<open>int(distance) + 1\<close> slots, so the vertex of a line with \<open>k + 1\<close>
  entries gets distance \<open>k\<close>, and the entry before the last as its predecessor. The
  source has no predecessor; its cell holds \<open>-1\<close>, which the loop never reads.
\<close>

definition row_of_path :: "nat \<Rightarrow> int list \<Rightarrow> row" where
  "row_of_path i p =
     \<lparr>vertex = int i, distance = Finite (real (length p - 1)),
      predecessor = (if length p < 2 then - 1 else p ! (length p - 2))\<rparr>"

definition karate_df :: dataframe where
  "karate_df = map (\<lambda>(i, p). row_of_path i p) (enumerate 0 printed_paths)"

text \<open>A result table for the two-vertex graph with the one edge \<open>0 \<rightarrow> 1\<close> of weight
  \<open>0.5\<close> and source \<open>0\<close>.\<close>

definition half_df :: dataframe where
  "half_df = [\<lparr>vertex = 0, distance = Finite 0, predecessor = - 1\<rparr>,
              \<lparr>vertex = 1, distance = Finite (1 / 2), predecessor = 0\<rparr>]"


section \<open>Properties of a result table and of a reconstructed path\<close>

text \<open>
  Modelled from the spec: the invariant of the \<open>DistanceArray\<close> that \<open>cugraph.sssp\<close>
  returns (its code is not part of the notebooks): \<open>distance[source] = 0\<close>, and for every
  reachable vertex \<open>v \<noteq> source\<close>, \<open>distance[v] = distance[predecessor[v]] +
  weight(predecessor[v] \<rightarrow> v)\<close>, where reachable means a finite distance. The notebook
  adds that vertex identifiers match row labels. The weights are the parameter \<open>w\<close>.
\<close>

definition sssp_table :: "dataframe \<Rightarrow> (int \<Rightarrow> int \<Rightarrow> real) \<Rightarrow> int \<Rightarrow> bool" where
  "sssp_table df w s \<longleftrightarrow>
     cell distance df s = Inr (Finite 0) \<and>
     (\<forall>k\<in>{0..<length df}. vertex (df ! k) = int k \<and>
        (int k \<noteq> s \<longrightarrow>
          (case distance (df ! k) of
             Infinity \<Rightarrow> True
           | Finite x \<Rightarrow>
              (case cell distance df (predecessor (df ! k)) of
                 Inr (Finite y) \<Rightarrow> x = y + w (predecessor (df ! k)) (int k)
               | _ \<Rightarrow> False))))"

text \<open>Every vertex of distance at least one has a predecessor in the table, one unit
  closer.\<close>

definition unit_step :: "dataframe \<Rightarrow> bool" where
  "unit_step df \<longleftrightarrow>
     (\<forall>v x. 0 \<le> v \<and> v < int (length df) \<and> distance (df ! nat v) = Finite x \<and> 1 \<le> x \<longrightarrow>
        0 \<le> predecessor (df ! nat v) \<and> predecessor (df ! nat v) < int (length df) \<and>
        distance (df ! nat (predecessor (df ! nat v))) = Finite (x - 1))"

text \<open>Each vertex of the list is the predecessor cell of the next one.\<close>

fun linked :: "dataframe \<Rightarrow> int list \<Rightarrow> bool" where
  "linked df (u # w # vs) = (cell predecessor df w = Inr u \<and> linked df (w # vs))"
| "linked df _ = True"

text \<open>The summed weight of the edges between consecutive vertices.\<close>

fun path_weight :: "(int \<Rightarrow> int \<Rightarrow> real) \<Rightarrow> int list \<Rightarrow> real" where
  "path_weight w (u # v # vs) = w u v + path_weight w (v # vs)"
| "path_weight w _ = 0"

text \<open>The vertices of a printed list, if no slot is left \<open>None\<close>.\<close>

definition those_vertices :: "int option list \<Rightarrow> int list option" where
  "those_vertices p = (if None \<in> set p then None else Some (map the p))"

text \<open>
  The path round trip for target \<open>t\<close>: the loop returns a list without \<open>None\<close> that
  starts at the source \<open>s\<close>, ends at \<open>t\<close>, follows predecessor cells, and whose summed
  edge weight is \<open>distance[t]\<close>.
\<close>

definition round_trip :: "dataframe \<Rightarrow> (int \<Rightarrow> int \<Rightarrow> real) \<Rightarrow> int \<Rightarrow> int \<Rightarrow> bool" where
  "round_trip df w s t =
     (case path_to df t of
        Some (Inr (p, k)) \<Rightarrow>
          (case those_vertices p of
             Some vs \<Rightarrow> vs \<noteq> [] \<and> hd vs = s \<and> last vs = t \<and> linked df vs \<and>
                cell distance df t = Inr (Finite (path_weight w vs))
           | None \<Rightarrow> False)
      | _ \<Rightarrow> False)"

section \<open>The shortest-path engine of the spec\<close>

text \<open>
  Modelled from the spec: \<open>cugraph.Graph\<close> and \<open>cugraph.sssp\<close> are calls into the
  library, whose code is not part of the notebooks. The definitions of this section follow
  sections 3 and 4.3 of the spec: a \<open>CSRGraph\<close> of \<open>offsets\<close>, \<open>neighbors\<close> and
  \<open>weights\<close>, and the label-setting algorithm: start with \<open>distance[source] = 0\<close> and
  every other distance \<open>+infinity\<close>; repeatedly extract the unsettled vertex of minimum
  tentative distance from the frontier, mark it settled and relax each outgoing edge (if
  \<open>distance[u] + weight(u,v) < distance[v]\<close>, update \<open>distance[v]\<close>, set
  \<open>predecessor[v] = u\<close> and reinsert \<open>v\<close> into the frontier); stop when the frontier
  is empty. It fails with \<open>InvalidSource\<close> if \<open>source \<ge> n\<close> and with
  \<open>NegativeWeight\<close> when a relaxation meets a negative weight. Ties are broken as the
  spec asks: the first-discovered vertex of minimum distance is extracted, and an equal
  tentative distance never replaces a predecessor.

  The spec fixes weights and distances as \<open>f64\<close>. The number format is a parameter of the
  engine: \<open>'f\<close> is the type of its finite values, linearly ordered (for \<open>f64\<close> the finite
  binary64 numbers, the two zeros taken as one), a value of the format is such a number,
  an infinity or a NaN, and \<open>add\<close> is the addition of the format (for \<open>f64\<close> the
  IEEE-754 addition, which rounds, overflows to \<open>+infinity\<close> and absorbs an infinite
  operand). The comparison \<open>fp_less\<close> is the comparison of the format: it is false
  whenever an operand is a NaN.
\<close>

datatype 'f fp = Val 'f | PosInf | NegInf | NaN

fun fp_less :: "'f::linorder fp \<Rightarrow> 'f fp \<Rightarrow> bool" where
  "fp_less (Val a) (Val b) = (a < b)"
| "fp_less (Val a) PosInf = True"
| "fp_less NegInf (Val b) = True"
| "fp_less NegInf PosInf = True"
| "fp_less x y = False"

record 'f csr_graph =
  offsets :: "nat list"
  neighbors :: "nat list"
  weights :: "'f fp list"

definition num_vertices :: "'f csr_graph \<Rightarrow> nat" where
  "num_vertices g = length (offsets g) - 1"

text \<open>Modelled from the spec: the invariant of a built \<open>CSRGraph\<close>: \<open>offsets[0] = 0\<close>,
  \<open>offsets\<close> non-decreasing, \<open>offsets[n] = m\<close>, every neighbor index \<open>< n\<close>.\<close>

definition csr_ok :: "'f csr_graph \<Rightarrow> bool" where
  "csr_ok g \<longleftrightarrow>
     offsets g \<noteq> [] \<and> offsets g ! 0 = 0 \<and> sorted (offsets g) \<and>
     offsets g ! num_vertices g = length (neighbors g) \<and>
     length (weights g) = length (neighbors g) \<and>
     (\<forall>v\<in>set (neighbors g). v < num_vertices g)"

datatype sssp_error = InvalidSource | NegativeWeight

record 'f distance_array =
  distances :: "'f fp list"
  predecessors :: "nat option list"

record 'f sssp_state =
  tentative :: "'f fp list"
  parent :: "nat option list"
  settled :: "bool list"
  frontier :: "nat list"

text \<open>The frontier vertex of minimum tentative distance; among equals, the one that
  entered the frontier first.\<close>

fun closest :: "'f::linorder fp list \<Rightarrow> nat \<Rightarrow> nat list \<Rightarrow> nat" where
  "closest d b [] = b"
| "closest d b (v # vs) = closest d (if fp_less (d ! v) (d ! b) then v else b) vs"

text \<open>Modelled from the spec: relaxing the edge stored at position \<open>j\<close> of the slice
  of \<open>u\<close> (the relaxation step of \<open>cugraph.sssp\<close>, which is not in the notebooks),
  failing fast on a negative weight.\<close>

definition relax ::
  "('f fp \<Rightarrow> 'f fp \<Rightarrow> 'f fp) \<Rightarrow> 'f::{linorder,zero} csr_graph \<Rightarrow> nat \<Rightarrow> nat \<Rightarrow>
   'f sssp_state \<Rightarrow> sssp_error + 'f sssp_state" where
  "relax add g u j st =
     (let v = neighbors g ! j; w = weights g ! j; c = add (tentative st ! u) w
      in if fp_less w (Val 0) then Inl NegativeWeight
         else if fp_less c (tentative st ! v)
         then Inr (st\<lparr>tentative := (tentative st)[v := c],
                       parent := (parent st)[v := Some u],
                       frontier := (if v \<in> set (frontier st) then frontier st
                                    else frontier st @ [v])\<rparr>)
         else Inr st)"

fun relax_edges ::
  "('f fp \<Rightarrow> 'f fp \<Rightarrow> 'f fp) \<Rightarrow> 'f::{linorder,zero} csr_graph \<Rightarrow> nat \<Rightarrow> nat list \<Rightarrow>
   'f sssp_state \<Rightarrow> sssp_error + 'f sssp_state" where
  "relax_edges add g u [] st = Inr st"
| "relax_edges add g u (j # js) st =
     (case relax add g u j st of Inl e \<Rightarrow> Inl e | Inr st' \<Rightarrow> relax_edges add g u js st')"

text \<open>Modelled from the spec: the main loop of \<open>cugraph.sssp\<close>, which is not in the
  notebooks; \<open>None\<close> is the loop that does not return.\<close>

partial_function (option) settle_all ::
  "('f fp \<Rightarrow> 'f fp \<Rightarrow> 'f fp) \<Rightarrow> 'f::{linorder,zero} csr_graph \<Rightarrow> 'f sssp_state \<Rightarrow>
   (sssp_error + 'f sssp_state) option"
where
  "settle_all add g st =
     (case frontier st of
        [] \<Rightarrow> Some (Inr st)
      | b # vs \<Rightarrow>
         (let u = closest (tentative st) b vs;
              st1 = st\<lparr>frontier := remove1 u (frontier st),
                        settled := (settled st)[u := True]\<rparr>
          in case relax_edges add g u [offsets g ! u..<offsets g ! Suc u] st1 of
               Inl e \<Rightarrow> Some (Inl e)
             | Inr st2 \<Rightarrow> settle_all add g st2))"

text \<open>Modelled from the spec: the entry point \<open>cugraph.sssp(G, source)\<close>, which is not
  in the notebooks, with its check of the source and its initial arrays.\<close>

definition initial_state :: "'f::zero csr_graph \<Rightarrow> nat \<Rightarrow> 'f sssp_state" where
  "initial_state g source =
     \<lparr>tentative = (replicate (num_vertices g) PosInf)[source := Val 0],
      parent = replicate (num_vertices g) None,
      settled = replicate (num_vertices g) False,
      frontier = [source]\<rparr>"

definition sssp ::
  "('f fp \<Rightarrow> 'f fp \<Rightarrow> 'f fp) \<Rightarrow> 'f::{linorder,zero} csr_graph \<Rightarrow> nat \<Rightarrow>
   (sssp_error + 'f distance_array) option" where
  "sssp add g source =
     (if num_vertices g \<le> source then Some (Inl InvalidSource)
      else (case settle_all add g (initial_state g source) of
              None \<Rightarrow> None
            | Some (Inl e) \<Rightarrow> Some (Inl e)
            | Some (Inr st) \<Rightarrow>
                Some (Inr \<lparr>distances = tentative st, predecessors = parent st\<rparr>)))"

text \<open>The edges of the graph: position \<open>j\<close> lies in the slice of \<open>u\<close>; and the
  vertices that a walk along edges reaches from \<open>s\<close>.\<close>

definition in_slice :: "'f csr_graph \<Rightarrow> nat \<Rightarrow> nat \<Rightarrow> bool" where
  "in_slice g u j \<longleftrightarrow> offsets g ! u \<le> j \<and> j < offsets g ! Suc u"

inductive reachable :: "'f csr_graph \<Rightarrow> nat \<Rightarrow> nat \<Rightarrow> bool" for g s where
  start: "s < num_vertices g \<Longrightarrow> reachable g s s"
| edge: "reachable g s u \<Longrightarrow> u < num_vertices g \<Longrightarrow> in_slice g u j \<Longrightarrow>
         reachable g s (neighbors g ! j)"

text \<open>The values a distance or a non-negative weight can take: a finite number that is
  not negative, or \<open>+infinity\<close>. The scope of the algorithm is a graph whose weights are
  all of this kind.\<close>

fun distance_value :: "'f::{linorder,zero} fp \<Rightarrow> bool" where
  "distance_value (Val a) = (0 \<le> a)"
| "distance_value PosInf = True"
| "distance_value x = False"

definition nonneg_weights :: "'f::{linorder,zero} csr_graph \<Rightarrow> bool" where
  "nonneg_weights g \<longleftrightarrow> (\<forall>w\<in>set (weights g). distance_value w)"

text \<open>
  What the proofs use of the addition of the format: the sum of a distance and a
  non-negative weight is again a non-negative number or \<open>+infinity\<close>, and it is not
  below the distance. The IEEE-754 addition has this property in every rounding mode
  (rounding is monotone and leaves the numbers of the format fixed), and so has the
  addition of the real numbers.
\<close>

definition monotone_add :: "('f::{linorder,zero} fp \<Rightarrow> 'f fp \<Rightarrow> 'f fp) \<Rightarrow> bool" where
  "monotone_add add \<longleftrightarrow>
     (\<forall>a w. distance_value a \<and> distance_value w \<longrightarrow>
        distance_value (add a w) \<and> \<not> fp_less (add a w) a)"

text \<open>
  An addition on real numbers with the special values of \<open>f64\<close> and its overflow
  (rounding to nearest overflows from \<open>2^1024 - 2^970\<close> on), and without rounding: it
  is the \<open>f64\<close> addition wherever the exact sum is itself a binary64 number or overflows.
\<close>

fun unrounded_add :: "real fp \<Rightarrow> real fp \<Rightarrow> real fp" where
  "unrounded_add NaN y = NaN"
| "unrounded_add x NaN = NaN"
| "unrounded_add PosInf NegInf = NaN"
| "unrounded_add NegInf PosInf = NaN"
| "unrounded_add PosInf y = PosInf"
| "unrounded_add x PosInf = PosInf"
| "unrounded_add NegInf y = NegInf"
| "unrounded_add x NegInf = NegInf"
| "unrounded_add (Val a) (Val b) =
     (if 2 ^ 1024 - 2 ^ 970 \<le> a + b then PosInf
      else if a + b \<le> - (2 ^ 1024 - 2 ^ 970) then NegInf
      else Val (a + b))"

text \<open>A three-vertex graph: \<open>0 \<rightarrow> 1\<close> of weight \<open>4\<close>, \<open>0 \<rightarrow> 2\<close> of weight \<open>1\<close>,
  \<open>2 \<rightarrow> 1\<close> of weight \<open>2\<close>.\<close>

definition small_graph :: "real csr_graph" where
  "small_graph = \<lparr>offsets = [0, 2, 2, 3], neighbors = [1, 2, 1],
                  weights = [Val 4, Val 1, Val 2]\<rparr>"

text \<open>A three-vertex graph: \<open>0 \<rightarrow> 1\<close> and \<open>1 \<rightarrow> 2\<close>, both of weight \<open>2^1023\<close>, a
  binary64 number whose double is beyond the largest one.\<close>

definition big_graph :: "real csr_graph" where
  "big_graph = \<lparr>offsets = [0, 1, 2, 2], neighbors = [1, 2],
                weights = [Val (2 ^ 1023), Val (2 ^ 1023)]\<rparr>"

section \<open>Properties of the shortest-path engine\<close>

text \<open>Relaxing the edge at position \<open>j\<close> of the slice of \<open>s\<close> cannot lower the distance
  of its head: \<open>distance[s] + weight < distance[neighbor]\<close> is false.\<close>

definition edge_ok ::
  "('f fp \<Rightarrow> 'f fp \<Rightarrow> 'f fp) \<Rightarrow> 'f::linorder csr_graph \<Rightarrow> 'f fp list \<Rightarrow> nat \<Rightarrow> nat \<Rightarrow> bool" where
  "edge_ok add g d s j \<longleftrightarrow> \<not> fp_less (add (d ! s) (weights g ! j)) (d ! (neighbors g ! j))"

text \<open>\<open>distance[v] = distance[predecessor[v]] + weight(predecessor[v], v)\<close>, in the
  addition of the format, for an edge of the graph from the predecessor to \<open>v\<close>, the
  predecessor being at a finite distance.\<close>

definition tree_edge ::
  "('f fp \<Rightarrow> 'f fp \<Rightarrow> 'f fp) \<Rightarrow> 'f csr_graph \<Rightarrow> 'f fp list \<Rightarrow> nat option list \<Rightarrow> nat \<Rightarrow> bool" where
  "tree_edge add g d ps v \<longleftrightarrow>
     (\<exists>p j. ps ! v = Some p \<and> p < num_vertices g \<and> in_slice g p j \<and>
        neighbors g ! j = v \<and> d ! p \<noteq> PosInf \<and> d ! v = add (d ! p) (weights g ! j))"

text \<open>The invariant of the main loop, in parts: the sizes of the arrays; the frontier
  holds exactly the unsettled vertices of finite distance; a settled vertex is no farther
  than an unsettled one; the edges of the settled vertices (but the one being relaxed) are
  relaxed; the source has distance \<open>0\<close> and every distance is a non-negative number or
  \<open>+infinity\<close>; every other vertex of finite distance hangs on an edge from its settled
  predecessor.\<close>

definition inv_shape :: "'f csr_graph \<Rightarrow> 'f sssp_state \<Rightarrow> bool" where
  "inv_shape g st \<longleftrightarrow>
     length (tentative st) = num_vertices g \<and> length (parent st) = num_vertices g \<and>
     length (settled st) = num_vertices g"

definition inv_front :: "'f csr_graph \<Rightarrow> 'f sssp_state \<Rightarrow> bool" where
  "inv_front g st \<longleftrightarrow>
     distinct (frontier st) \<and>
     set (frontier st) =
       {v. v < num_vertices g \<and> \<not> settled st ! v \<and> tentative st ! v \<noteq> PosInf}"

definition inv_order :: "'f::linorder csr_graph \<Rightarrow> 'f sssp_state \<Rightarrow> bool" where
  "inv_order g st \<longleftrightarrow>
     (\<forall>s<num_vertices g. settled st ! s \<longrightarrow>
        tentative st ! s \<noteq> PosInf \<and>
        (\<forall>v<num_vertices g. \<not> settled st ! v \<longrightarrow>
           \<not> fp_less (tentative st ! v) (tentative st ! s)))"

definition inv_relaxed ::
  "('f fp \<Rightarrow> 'f fp \<Rightarrow> 'f fp) \<Rightarrow> 'f::linorder csr_graph \<Rightarrow> nat \<Rightarrow> 'f sssp_state \<Rightarrow> bool" where
  "inv_relaxed add g u st \<longleftrightarrow>
     (\<forall>s<num_vertices g. settled st ! s \<longrightarrow> s \<noteq> u \<longrightarrow>
        (\<forall>j. in_slice g s j \<longrightarrow> edge_ok add g (tentative st) s j))"

definition inv_source :: "'f::{linorder,zero} csr_graph \<Rightarrow> nat \<Rightarrow> 'f sssp_state \<Rightarrow> bool" where
  "inv_source g src st \<longleftrightarrow>
     tentative st ! src = Val 0 \<and> parent st ! src = None \<and>
     (\<forall>v<num_vertices g. distance_value (tentative st ! v))"

definition inv_tree ::
  "('f fp \<Rightarrow> 'f fp \<Rightarrow> 'f fp) \<Rightarrow> 'f csr_graph \<Rightarrow> nat \<Rightarrow> 'f sssp_state \<Rightarrow> bool" where
  "inv_tree add g src st \<longleftrightarrow>
     (\<forall>v<num_vertices g. v \<noteq> src \<longrightarrow>
        (if tentative st ! v = PosInf then parent st ! v = None
         else tree_edge add g (tentative st) (parent st) v \<and>
              settled st ! the (parent st ! v)))"

text \<open>While the edges of the extracted vertex \<open>u\<close> are relaxed: those before position
  \<open>k\<close> are done, and no settled vertex is farther than \<open>u\<close>.\<close>

definition inv_current ::
  "('f fp \<Rightarrow> 'f fp \<Rightarrow> 'f fp) \<Rightarrow> 'f::linorder csr_graph \<Rightarrow> nat \<Rightarrow> nat \<Rightarrow> 'f sssp_state \<Rightarrow> bool" where
  "inv_current add g u k st \<longleftrightarrow>
     u < num_vertices g \<and> settled st ! u \<and>
     (\<forall>j. in_slice g u j \<longrightarrow> j < k \<longrightarrow> edge_ok add g (tentative st) u j) \<and>
     (\<forall>s<num_vertices g. settled st ! s \<longrightarrow>
        \<not> fp_less (tentative st ! u) (tentative st ! s))"

definition outer_inv ::
  "('f fp \<Rightarrow> 'f fp \<Rightarrow> 'f fp) \<Rightarrow> 'f::{linorder,zero} csr_graph \<Rightarrow> nat \<Rightarrow> 'f sssp_state \<Rightarrow> bool" where
  "outer_inv add g src st \<longleftrightarrow>
     inv_shape g st \<and> inv_front g st \<and> inv_order g st \<and>
     inv_relaxed add g (num_vertices g) st \<and> inv_source g src st \<and> inv_tree add g src st"

definition inner_inv ::
  "('f fp \<Rightarrow> 'f fp \<Rightarrow> 'f fp) \<Rightarrow> 'f::{linorder,zero} csr_graph \<Rightarrow> nat \<Rightarrow> nat \<Rightarrow> nat \<Rightarrow>
   'f sssp_state \<Rightarrow> bool" where
  "inner_inv add g src u k st \<longleftrightarrow>
     inv_shape g st \<and> inv_front g st \<and> inv_order g st \<and>
     inv_relaxed add g u st \<and> inv_source g src st \<and> inv_tree add g src st \<and>
     inv_current add g u k st"

definition unsettled :: "'f csr_graph \<Rightarrow> 'f sssp_state \<Rightarrow> nat set" where
  "unsettled g st = {v. v < num_vertices g \<and> \<not> settled st ! v}"

section \<open>The renumbering engine of the spec\<close>










section \<open>The loop on a table of unit weights\<close>

lemmas notebook_defs = path_to_def cell_def int_distance_def none_list_def set_item_def

lemma linked_snoc:
  "linked df (vs @ [u]) \<Longrightarrow> cell predecessor df w = Inr u \<Longrightarrow> linked df (vs @ [u, w])"
  by (induction df vs rule: linked.induct) auto

lemma path_weight_unit: "\<forall>u v. w u v = 1 \<Longrightarrow> path_weight w (us @ [v]) = real (length us)"
  by (induction w us rule: path_weight.induct) auto

lemma int_distance_Finite:
  "0 \<le> v \<Longrightarrow> v < int (length df) \<Longrightarrow> distance (df ! nat v) = Finite x \<Longrightarrow>
   real n \<le> x \<Longrightarrow> x < real n + 1 \<Longrightarrow> int_distance df v = Inr (int n)"
  unfolding int_distance_def cell_def by (auto simp: floor_eq_iff)

lemma walk_unit:
  assumes "unit_step df"
  shows "0 \<le> v \<Longrightarrow> v < int (length df) \<Longrightarrow> distance (df ! nat v) = Finite x \<Longrightarrow>
     real n \<le> x \<Longrightarrow> x < real n + 1 \<Longrightarrow> n < length path \<Longrightarrow>
     \<exists>vs. walk df v (int n) path k = Some (Inr (map Some vs @ drop n path, k + n)) \<and>
          length vs = n \<and> linked df (vs @ [v]) \<and>
          (\<forall>j\<le>n. 0 \<le> (vs @ [v]) ! j \<and> (vs @ [v]) ! j < int (length df) \<and>
             distance (df ! nat ((vs @ [v]) ! j)) = Finite (x - real (n - j)))"
proof (induction n arbitrary: v x path k)
  case 0
  then show ?case by (simp add: walk.simps)
next
  case (Suc m)
  let ?p = "predecessor (df ! nat v)"
  from Suc.prems have x1: "1 \<le> x" by simp
  with assms Suc.prems have p: "0 \<le> ?p" "?p < int (length df)"
    "distance (df ! nat ?p) = Finite (x - 1)"
    unfolding unit_step_def by blast+
  have cp: "cell predecessor df v = Inr ?p" using Suc.prems by (simp add: cell_def)
  have dp: "int_distance df ?p = Inr (int m)"
    using p Suc.prems by (intro int_distance_Finite[where x = "x - 1"]) auto
  have si: "set_item path (int m) (Some ?p) = Inr (path[m := Some ?p])"
    using Suc.prems by (simp add: set_item_def)
  from Suc.IH[OF p, of "path[m := Some ?p]" "Suc k"] Suc.prems
  obtain vs where vs: "walk df ?p (int m) (path[m := Some ?p]) (Suc k) =
       Some (Inr (map Some vs @ drop m (path[m := Some ?p]), Suc k + m))"
     "length vs = m" "linked df (vs @ [?p])"
     "\<forall>j\<le>m. 0 \<le> (vs @ [?p]) ! j \<and> (vs @ [?p]) ! j < int (length df) \<and>
             distance (df ! nat ((vs @ [?p]) ! j)) = Finite (x - 1 - real (m - j))"
    by auto
  have dr: "drop m (path[m := Some ?p]) = Some ?p # drop (Suc m) path"
    using Suc.prems by (simp add: Cons_nth_drop_Suc[symmetric])
  have w: "walk df v (int (Suc m)) path k =
      Some (Inr (map Some (vs @ [?p]) @ drop (Suc m) path, k + Suc m))"
    by (subst walk.simps) (simp add: cp dp si vs dr)
  have "0 \<le> ((vs @ [?p]) @ [v]) ! j \<and> ((vs @ [?p]) @ [v]) ! j < int (length df) \<and>
        distance (df ! nat (((vs @ [?p]) @ [v]) ! j)) = Finite (x - real (Suc m - j))"
    if "j \<le> Suc m" for j
  proof (cases "j \<le> m")
    case True
    then have "((vs @ [?p]) @ [v]) ! j = (vs @ [?p]) ! j"
      using vs(2) by (simp add: nth_append)
    moreover have "x - 1 - real (m - j) = x - real (Suc m - j)"
      using True by (simp add: Suc_diff_le)
    ultimately show ?thesis using vs(4) True by simp
  next
    case False
    with that have "j = Suc m" by simp
    then show ?thesis using vs(2) Suc.prems by (simp add: nth_append)
  qed
  moreover have "linked df ((vs @ [?p]) @ [v])"
    using linked_snoc[OF vs(3) cp] by simp
  ultimately show ?case using w vs(2) by (intro exI[of _ "vs @ [?p]"]) simp
qed

lemma sssp_tableD:
  assumes "sssp_table df w s" "0 \<le> v" "v < int (length df)" "v \<noteq> s"
    "distance (df ! nat v) = Finite x"
  shows "0 \<le> predecessor (df ! nat v) \<and> predecessor (df ! nat v) < int (length df) \<and>
     (\<exists>y. distance (df ! nat (predecessor (df ! nat v))) = Finite y \<and>
          x = y + w (predecessor (df ! nat v)) v)"
proof -
  have k: "nat v \<in> {0..<length df}" "int (nat v) \<noteq> s" "int (nat v) = v"
    using assms by auto
  from assms(1) have "\<forall>k\<in>{0..<length df}. int k \<noteq> s \<longrightarrow>
          (case distance (df ! k) of
             Infinity \<Rightarrow> True
           | Finite x \<Rightarrow>
              (case cell distance df (predecessor (df ! k)) of
                 Inr (Finite y) \<Rightarrow> x = y + w (predecessor (df ! k)) (int k)
               | _ \<Rightarrow> False))"
    unfolding sssp_table_def by blast
  from bspec[OF this k(1)] k(2) assms(2,5)
  show ?thesis
    by (auto simp: cell_def split: if_splits sum.splits dist.splits)
qed

lemma sssp_table_source:
  assumes "sssp_table df w s"
  shows "0 \<le> s" "s < int (length df)" "distance (df ! nat s) = Finite 0"
  using assms unfolding sssp_table_def cell_def by (auto split: if_splits)

lemma sssp_table_vertex:
  "sssp_table df w s \<Longrightarrow> 0 \<le> t \<Longrightarrow> t < int (length df) \<Longrightarrow> cell vertex df t = Inr t"
  unfolding sssp_table_def cell_def by auto

lemma unit_table_nonneg:
  assumes tab: "sssp_table df w s" and unit: "\<forall>u v. w u v = 1"
    and v: "0 \<le> v" "v < int (length df)" "distance (df ! nat v) = Finite x"
  shows "0 \<le> x"
proof -
  define D where "D = {y. \<exists>k<length df. distance (df ! k) = Finite y}"
  have "D \<subseteq> (\<lambda>r. case distance r of Finite y \<Rightarrow> y | Infinity \<Rightarrow> 0) ` set df"
    unfolding D_def by (force simp: in_set_conv_nth)
  then have fin: "finite D" by (rule finite_subset) simp
  have xD: "x \<in> D" unfolding D_def using v by (intro CollectI exI[of _ "nat v"]) auto
  then have ne: "D \<noteq> {}" by blast
  have "Min D \<in> D" using fin ne by (rule Min_in)
  then obtain k where k: "k < length df" "distance (df ! k) = Finite (Min D)"
    unfolding D_def by blast
  have "Min D = 0"
  proof (cases "int k = s")
    case True
    then show ?thesis using sssp_table_source(3)[OF tab] k by auto
  next
    case False
    from sssp_tableD[OF tab _ _ False, of "Min D"] k unit
    obtain y where y: "0 \<le> predecessor (df ! k)" "predecessor (df ! k) < int (length df)"
      "distance (df ! nat (predecessor (df ! k))) = Finite y" "Min D = y + 1"
      by auto
    then have "y \<in> D" unfolding D_def
      by (intro CollectI exI[of _ "nat (predecessor (df ! k))"]) auto
    then have "Min D \<le> y" using fin by simp
    with y(4) show ?thesis by simp
  qed
  then show ?thesis using Min_le[OF fin xD] by simp
qed

lemma unit_table_step:
  assumes tab: "sssp_table df w s" and unit: "\<forall>u v. w u v = 1"
    and v: "0 \<le> v" "v < int (length df)" "distance (df ! nat v) = Finite x" "v \<noteq> s"
  shows "0 \<le> predecessor (df ! nat v) \<and> predecessor (df ! nat v) < int (length df) \<and>
     distance (df ! nat (predecessor (df ! nat v))) = Finite (x - 1) \<and> 1 \<le> x"
proof -
  from sssp_tableD[OF tab v(1,2,4,3)] unit
  obtain y where y: "0 \<le> predecessor (df ! nat v)" "predecessor (df ! nat v) < int (length df)"
      "distance (df ! nat (predecessor (df ! nat v))) = Finite y" "x = y + 1"
    by auto
  moreover have "0 \<le> y" using unit_table_nonneg[OF tab unit y(1,2,3)] .
  ultimately show ?thesis by simp
qed

lemma unit_table_unit_step:
  assumes tab: "sssp_table df w s" and unit: "\<forall>u v. w u v = 1"
  shows "unit_step df"
  unfolding unit_step_def
proof (intro allI impI)
  fix v x
  assume a: "0 \<le> v \<and> v < int (length df) \<and> distance (df ! nat v) = Finite x \<and> 1 \<le> x"
  then have "v \<noteq> s" using sssp_table_source(3)[OF tab] by auto
  with unit_table_step[OF tab unit, of v x] a
  show "0 \<le> predecessor (df ! nat v) \<and> predecessor (df ! nat v) < int (length df) \<and>
        distance (df ! nat (predecessor (df ! nat v))) = Finite (x - 1)" by simp
qed

lemma path_to_unit:
  assumes tab: "sssp_table df w s" and unit: "\<forall>u v. w u v = 1"
    and t: "0 \<le> t" "t < int (length df)" "distance (df ! nat t) = Finite x"
  shows "\<exists>n vs. path_to df t = Some (Inr (map Some (vs @ [t]), n)) \<and> length vs = n \<and>
      x = real n \<and> linked df (vs @ [t]) \<and> (vs @ [t]) ! 0 = s \<and>
      (\<forall>j\<le>n. int_distance df ((vs @ [t]) ! j) = Inr (int j))"
proof -
  have x0: "0 \<le> x" using unit_table_nonneg[OF tab unit t] .
  define n where "n = nat \<lfloor>x\<rfloor>"
  have nx: "real n \<le> x" "x < real n + 1" using x0 unfolding n_def by linarith+
  have d: "int_distance df t = Inr (int n)" using int_distance_Finite[OF t nx] .
  have r: "(replicate (Suc n) None)[n := Some t] = replicate n None @ [Some t]"
    by (induction n) auto
  have si: "set_item (none_list (int n + 1)) (int n) (Some t) =
      Inr (replicate n None @ [Some t])"
    using r by (simp add: set_item_def none_list_def nat_add_distrib del: replicate.simps)
  have len: "n < length (replicate n None @ [Some t])" by simp
  from walk_unit[OF unit_table_unit_step[OF tab unit] t nx len, of 0]
  obtain vs where vs: "walk df t (int n) (replicate n None @ [Some t]) 0 =
       Some (Inr (map Some vs @ drop n (replicate n None @ [Some t]), 0 + n))"
     "length vs = n" "linked df (vs @ [t])"
     "\<forall>j\<le>n. 0 \<le> (vs @ [t]) ! j \<and> (vs @ [t]) ! j < int (length df) \<and>
             distance (df ! nat ((vs @ [t]) ! j)) = Finite (x - real (n - j))"
    by blast
  have dr: "drop n (replicate n None @ [Some t]) = [Some t]"
    by simp
  have p: "path_to df t = Some (Inr (map Some (vs @ [t]), n))"
    unfolding path_to_def by (simp add: sssp_table_vertex[OF tab t(1,2)] d si vs(1) dr)
  have first: "0 \<le> (vs @ [t]) ! 0" "(vs @ [t]) ! 0 < int (length df)"
     "distance (df ! nat ((vs @ [t]) ! 0)) = Finite (x - real n)"
    using vs(4) by auto
  have s: "(vs @ [t]) ! 0 = s"
  proof (rule ccontr)
    assume "(vs @ [t]) ! 0 \<noteq> s"
    from unit_table_step[OF tab unit first this] nx show False by simp
  qed
  then have "x - real n = 0" using first(3) sssp_table_source(3)[OF tab] by simp
  then have xn: "x = real n" by simp
  have "int_distance df ((vs @ [t]) ! j) = Inr (int j)" if "j \<le> n" for j
  proof -
    from vs(4) that have j: "0 \<le> (vs @ [t]) ! j" "(vs @ [t]) ! j < int (length df)"
      "distance (df ! nat ((vs @ [t]) ! j)) = Finite (x - real (n - j))" by auto
    show ?thesis using that xn by (intro int_distance_Finite[OF j]) auto
  qed
  with p vs(2,3) s xn show ?thesis by blast
qed

section \<open>The loop on any table: the printed list has \<open>int(distance) + 1\<close> slots\<close>




section \<open>The recorded Karate table\<close>

lemma karate_df_rows:
  "karate_df =
     [\<lparr>vertex = 0, distance = Finite 1, predecessor = 1\<rparr>,
      \<lparr>vertex = 1, distance = Finite 0, predecessor = - 1\<rparr>,
      \<lparr>vertex = 2, distance = Finite 1, predecessor = 1\<rparr>,
      \<lparr>vertex = 3, distance = Finite 1, predecessor = 1\<rparr>,
      \<lparr>vertex = 4, distance = Finite 2, predecessor = 0\<rparr>,
      \<lparr>vertex = 5, distance = Finite 2, predecessor = 0\<rparr>,
      \<lparr>vertex = 6, distance = Finite 2, predecessor = 0\<rparr>,
      \<lparr>vertex = 7, distance = Finite 1, predecessor = 1\<rparr>,
      \<lparr>vertex = 8, distance = Finite 2, predecessor = 30\<rparr>,
      \<lparr>vertex = 9, distance = Finite 2, predecessor = 2\<rparr>,
      \<lparr>vertex = 10, distance = Finite 2, predecessor = 0\<rparr>,
      \<lparr>vertex = 11, distance = Finite 2, predecessor = 0\<rparr>,
      \<lparr>vertex = 12, distance = Finite 2, predecessor = 0\<rparr>,
      \<lparr>vertex = 13, distance = Finite 1, predecessor = 1\<rparr>,
      \<lparr>vertex = 14, distance = Finite 3, predecessor = 33\<rparr>,
      \<lparr>vertex = 15, distance = Finite 3, predecessor = 33\<rparr>,
      \<lparr>vertex = 16, distance = Finite 3, predecessor = 5\<rparr>,
      \<lparr>vertex = 17, distance = Finite 1, predecessor = 1\<rparr>,
      \<lparr>vertex = 18, distance = Finite 3, predecessor = 33\<rparr>,
      \<lparr>vertex = 19, distance = Finite 1, predecessor = 1\<rparr>,
      \<lparr>vertex = 20, distance = Finite 3, predecessor = 33\<rparr>,
      \<lparr>vertex = 21, distance = Finite 1, predecessor = 1\<rparr>,
      \<lparr>vertex = 22, distance = Finite 3, predecessor = 33\<rparr>,
      \<lparr>vertex = 23, distance = Finite 3, predecessor = 33\<rparr>,
      \<lparr>vertex = 24, distance = Finite 3, predecessor = 31\<rparr>,
      \<lparr>vertex = 25, distance = Finite 3, predecessor = 31\<rparr>,
      \<lparr>vertex = 26, distance = Finite 3, predecessor = 33\<rparr>,
      \<lparr>vertex = 27, distance = Finite 2, predecessor = 2\<rparr>,
      \<lparr>vertex = 28, distance = Finite 2, predecessor = 2\<rparr>,
      \<lparr>vertex = 29, distance = Finite 3, predecessor = 33\<rparr>,
      \<lparr>vertex = 30, distance = Finite 1, predecessor = 1\<rparr>,
      \<lparr>vertex = 31, distance = Finite 2, predecessor = 0\<rparr>,
      \<lparr>vertex = 32, distance = Finite 2, predecessor = 30\<rparr>,
      \<lparr>vertex = 33, distance = Finite 2, predecessor = 13\<rparr>]"
  by (simp add: karate_df_def printed_paths_def row_of_path_def)

lemma karate_table: "sssp_table karate_df (\<lambda>u v. 1) 1"
  unfolding sssp_table_def atLeastLessThan_upt
  by (simp add: karate_df_rows cell_def)


lemma half_df_table: "sssp_table half_df (\<lambda>u v. 1 / 2) 0"
  unfolding sssp_table_def atLeastLessThan_upt by (simp add: half_df_def cell_def)

section \<open>What a printed line says about the table\<close>





section \<open>The shortest-path engine returns, and its invariant holds at the end\<close>

lemma fp_less_irrefl [simp]: "\<not> fp_less a a"
  by (cases a) auto

lemma fp_less_trans: "fp_less a b \<Longrightarrow> fp_less b c \<Longrightarrow> fp_less a c"
  by (cases a; cases b; cases c) auto

lemma distance_le_trans:
  "distance_value a \<Longrightarrow> distance_value b \<Longrightarrow> distance_value c \<Longrightarrow>
   \<not> fp_less b a \<Longrightarrow> \<not> fp_less c b \<Longrightarrow> \<not> fp_less c a"
  by (cases a; cases b; cases c) auto

lemma distance_le_less:
  "distance_value a \<Longrightarrow> distance_value b \<Longrightarrow> distance_value c \<Longrightarrow>
   \<not> fp_less c a \<Longrightarrow> fp_less c b \<Longrightarrow> fp_less a b"
  by (cases a; cases b; cases c) auto

lemma distance_total:
  "distance_value a \<Longrightarrow> distance_value b \<Longrightarrow> fp_less a b \<Longrightarrow> \<not> fp_less b a"
  by (cases a; cases b) auto

lemma distance_not_negative: "distance_value a \<Longrightarrow> \<not> fp_less a (Val 0)"
  by (cases a) auto

lemma fp_less_not_PosInf: "fp_less a b \<Longrightarrow> a \<noteq> PosInf"
  by (cases a) auto

lemma fp_less_PosInf_left [simp]: "\<not> fp_less PosInf b"
  by (cases b) auto

lemma closest_mem: "closest d b vs \<in> set (b # vs)"
  by (induction vs arbitrary: b) (auto split: if_splits)

lemma closest_le_start:
  assumes "\<forall>x\<in>set (b # vs). distance_value (d ! x)"
  shows "\<not> fp_less (d ! b) (d ! closest d b vs)"
  using assms
proof (induction vs arbitrary: b)
  case Nil
  then show ?case by simp
next
  case (Cons v vs)
  let ?b' = "if fp_less (d ! v) (d ! b) then v else b"
  have dv: "distance_value (d ! b)" "distance_value (d ! v)" "distance_value (d ! ?b')"
    using Cons.prems by auto
  have b': "\<forall>x\<in>set (?b' # vs). distance_value (d ! x)" using Cons.prems by auto
  have m: "closest d ?b' vs \<in> set (?b' # vs)" by (rule closest_mem)
  then have dc: "distance_value (d ! closest d ?b' vs)" using b' by blast
  have "\<not> fp_less (d ! b) (d ! ?b')" using distance_total[OF dv(2,1)] by auto
  from distance_le_trans[OF dc dv(3) dv(1) Cons.IH[OF b'] this]
  show ?case by simp
qed

lemma closest_min:
  assumes "\<forall>x\<in>set (b # vs). distance_value (d ! x)" and "x \<in> set (b # vs)"
  shows "\<not> fp_less (d ! x) (d ! closest d b vs)"
  using assms
proof (induction vs arbitrary: b)
  case Nil
  then show ?case by simp
next
  case (Cons v vs)
  let ?b' = "if fp_less (d ! v) (d ! b) then v else b"
  have c: "closest d b (v # vs) = closest d ?b' vs" by simp
  have dv: "distance_value (d ! b)" "distance_value (d ! v)" "distance_value (d ! ?b')"
    using Cons.prems by auto
  have b': "\<forall>x\<in>set (?b' # vs). distance_value (d ! x)" using Cons.prems by auto
  have "closest d ?b' vs \<in> set (?b' # vs)" by (rule closest_mem)
  then have dc: "distance_value (d ! closest d ?b' vs)" using b' by blast
  have le: "\<not> fp_less (d ! b) (d ! ?b')" "\<not> fp_less (d ! v) (d ! ?b')"
    using distance_total[OF dv(2,1)] by auto
  from Cons.prems(2) consider "x = b" | "x = v" | "x \<in> set vs" by auto
  then show ?case
  proof cases
    case 1
    then show ?thesis
      unfolding c using distance_le_trans[OF dc dv(3) dv(1) closest_le_start[OF b'] le(1)]
      by simp
  next
    case 2
    then show ?thesis
      unfolding c using distance_le_trans[OF dc dv(3) dv(2) closest_le_start[OF b'] le(2)]
      by simp
  next
    case 3
    then show ?thesis unfolding c using Cons.IH[OF b'] by simp
  qed
qed

lemma csr_slice_bound:
  assumes "csr_ok g" "u < num_vertices g" "in_slice g u j"
  shows "j < length (neighbors g)"
proof -
  have "offsets g ! Suc u \<le> offsets g ! num_vertices g"
    using assms(1,2) unfolding csr_ok_def num_vertices_def
    by (intro sorted_nth_mono) auto
  then show ?thesis using assms unfolding csr_ok_def in_slice_def by simp
qed

lemma csr_neighbor:
  assumes "csr_ok g" "u < num_vertices g" "in_slice g u j"
  shows "neighbors g ! j < num_vertices g"
  using csr_slice_bound[OF assms] assms(1) unfolding csr_ok_def by simp

lemma csr_weight:
  assumes "csr_ok g" "nonneg_weights g" "u < num_vertices g" "in_slice g u j"
  shows "distance_value (weights g ! j)"
  using csr_slice_bound[OF assms(1,3,4)] assms(1,2) unfolding csr_ok_def nonneg_weights_def
  by simp

lemma outer_initial:
  assumes "src < num_vertices g"
  shows "outer_inv add g src (initial_state g src)"
  unfolding outer_inv_def
proof (intro conjI)
  show "inv_shape g (initial_state g src)" by (simp add: inv_shape_def initial_state_def)
  show "inv_front g (initial_state g src)"
    using assms by (auto simp: inv_front_def initial_state_def nth_list_update)
  show "inv_order g (initial_state g src)" by (simp add: inv_order_def initial_state_def)
  show "inv_relaxed add g (num_vertices g) (initial_state g src)"
    by (simp add: inv_relaxed_def initial_state_def)
  show "inv_source g src (initial_state g src)"
    using assms by (auto simp: inv_source_def initial_state_def nth_list_update)
  show "inv_tree add g src (initial_state g src)"
    by (simp add: inv_tree_def initial_state_def)
qed


lemma relax_keep:
  assumes inv: "inner_inv add g src u j st"
    and w: "distance_value (weights g ! j)"
    and no: "\<not> fp_less (add (tentative st ! u) (weights g ! j))
                 (tentative st ! (neighbors g ! j))"
  shows "relax add g u j st = Inr st \<and> inner_inv add g src u (Suc j) st"
proof -
  have r: "relax add g u j st = Inr st"
    using distance_not_negative[OF w] no by (simp add: relax_def Let_def)
  have "edge_ok add g (tentative st) u j" using no by (simp add: edge_ok_def)
  then have "inv_current add g u (Suc j) st"
    using inv unfolding inner_inv_def inv_current_def by (auto simp: less_Suc_eq)
  then show ?thesis using r inv unfolding inner_inv_def by simp
qed

lemma relax_update:
  assumes mono: "monotone_add add"
    and inv: "inner_inv add g src u j st"
    and w: "distance_value (weights g ! j)"
    and v: "neighbors g ! j < num_vertices g"
    and j: "in_slice g u j"
    and yes: "fp_less (add (tentative st ! u) (weights g ! j))
                 (tentative st ! (neighbors g ! j))"
  shows "\<exists>st'. relax add g u j st = Inr st' \<and> inner_inv add g src u (Suc j) st' \<and>
           settled st' = settled st"
proof -
  define n where "n = num_vertices g"
  define d where "d = tentative st"
  define v where "v = neighbors g ! j"
  define c where "c = add (d ! u) (weights g ! j)"
  define d' where "d' = d[v := c]"
  define ps' where "ps' = (parent st)[v := Some u]"
  define F' where "F' = (if v \<in> set (frontier st) then frontier st else frontier st @ [v])"
  define st' where "st' = st\<lparr>tentative := d', parent := ps', frontier := F'\<rparr>"
  have r: "relax add g u j st = Inr st'"
    using distance_not_negative[OF w] yes
    by (simp add: relax_def Let_def st'_def d'_def ps'_def F'_def c_def d_def v_def)
  have sel: "tentative st' = d'" "parent st' = ps'" "frontier st' = F'"
    "settled st' = settled st"
    by (simp_all add: st'_def)
  from inv have I: "inv_shape g st" "inv_front g st" "inv_order g st" "inv_relaxed add g u st"
    "inv_source g src st" "inv_tree add g src st" "inv_current add g u j st"
    unfolding inner_inv_def by simp_all
  have shape: "length d = n" "length (parent st) = n" "length (settled st) = n"
    using I(1) unfolding inv_shape_def n_def d_def by simp_all
  have front: "distinct (frontier st)"
      "set (frontier st) = {x. x < n \<and> \<not> settled st ! x \<and> d ! x \<noteq> PosInf}"
    using I(2) unfolding inv_front_def n_def d_def by simp_all
  have order: "\<And>s. s < n \<Longrightarrow> settled st ! s \<Longrightarrow> d ! s \<noteq> PosInf"
      "\<And>s x. s < n \<Longrightarrow> settled st ! s \<Longrightarrow> x < n \<Longrightarrow> \<not> settled st ! x \<Longrightarrow>
         \<not> fp_less (d ! x) (d ! s)"
    using I(3) unfolding inv_order_def n_def d_def by blast+
  have relaxed: "\<And>s i. s < n \<Longrightarrow> settled st ! s \<Longrightarrow> s \<noteq> u \<Longrightarrow> in_slice g s i \<Longrightarrow>
         edge_ok add g d s i"
    using I(4) unfolding inv_relaxed_def n_def d_def by blast
  have source: "d ! src = Val 0" "parent st ! src = None"
      "\<And>x. x < n \<Longrightarrow> distance_value (d ! x)"
    using I(5) unfolding inv_source_def n_def d_def by blast+
  have tree: "\<And>x. x < n \<Longrightarrow> x \<noteq> src \<Longrightarrow>
        (if d ! x = PosInf then parent st ! x = None
         else tree_edge add g d (parent st) x \<and> settled st ! the (parent st ! x))"
    using I(6) unfolding inv_tree_def n_def d_def by blast
  have cur: "u < n" "settled st ! u"
      "\<And>i. in_slice g u i \<Longrightarrow> i < j \<Longrightarrow> edge_ok add g d u i"
      "\<And>s. s < n \<Longrightarrow> settled st ! s \<Longrightarrow> \<not> fp_less (d ! u) (d ! s)"
    using I(7) unfolding inv_current_def n_def d_def by blast+
  have vn: "v < n" using v by (simp add: v_def n_def)
  have yes': "fp_less c (d ! v)" using yes by (simp add: c_def d_def v_def)
  have dvu: "distance_value (d ! u)" using source(3)[OF cur(1)] .
  have dvv: "distance_value (d ! v)" using source(3)[OF vn] .
  have dvc: "distance_value c" and cu: "\<not> fp_less c (d ! u)"
    using mono dvu w unfolding monotone_add_def c_def by blast+
  have cfin: "c \<noteq> PosInf" using fp_less_not_PosInf[OF yes'] .
  have ufin: "d ! u \<noteq> PosInf" using order(1)[OF cur(1,2)] .
  have unsettled: "\<not> settled st ! v"
  proof
    assume "settled st ! v"
    from cur(4)[OF vn this] have "\<not> fp_less (d ! u) (d ! v)" .
    moreover have "fp_less (d ! u) (d ! v)"
      using distance_le_less[OF dvu dvv dvc cu yes'] .
    ultimately show False by simp
  qed
  have vu: "v \<noteq> u" using unsettled cur(2) by auto
  have vsrc: "v \<noteq> src"
  proof
    assume "v = src"
    with yes' source(1) have "fp_less c (Val 0)" by simp
    then show False using distance_not_negative[OF dvc] by simp
  qed
  have d'_at: "d' ! x = (if x = v then c else d ! x)" for x
    using vn shape(1) by (auto simp: d'_def nth_list_update)
  have ps'_at: "ps' ! x = (if x = v then Some u else parent st ! x)" for x
    using vn shape(2) by (auto simp: ps'_def nth_list_update)
  have lower: "\<not> fp_less a c" if "\<not> fp_less a (d ! v)" for a
    using that yes' fp_less_trans by blast
  have i1: "inv_shape g st'"
    using shape by (simp add: inv_shape_def sel d'_def ps'_def n_def)
  have i2: "inv_front g st'"
    unfolding inv_front_def sel n_def[symmetric]
  proof
    show "distinct F'" using front(1) by (simp add: F'_def)
    have "set F' = insert v (set (frontier st))" by (auto simp: F'_def)
    also have "\<dots> = {x. x < n \<and> \<not> settled st ! x \<and> d' ! x \<noteq> PosInf}"
      using vn unsettled cfin by (auto simp: front(2) d'_at)
    finally show "set F' = {x. x < n \<and> \<not> settled st ! x \<and> d' ! x \<noteq> PosInf}" .
  qed
  have i3: "inv_order g st'"
    unfolding inv_order_def sel n_def[symmetric]
  proof (intro allI impI conjI)
    fix s assume s: "s < n" "settled st ! s"
    then have sv: "s \<noteq> v" using unsettled by auto
    show "d' ! s \<noteq> PosInf" using order(1)[OF s] sv by (simp add: d'_at)
    fix x assume x: "x < n" "\<not> settled st ! x"
    show "\<not> fp_less (d' ! x) (d' ! s)"
    proof (cases "x = v")
      case True
      have "\<not> fp_less c (d ! s)"
        using distance_le_trans[OF source(3)[OF s(1)] dvu dvc cur(4)[OF s] cu] .
      then show ?thesis using True sv by (simp add: d'_at)
    next
      case False
      then show ?thesis using order(2)[OF s x] sv by (simp add: d'_at)
    qed
  qed
  have i4: "inv_relaxed add g u st'"
    unfolding inv_relaxed_def sel n_def[symmetric]
  proof (intro allI impI)
    fix s i assume s: "s < n" "settled st ! s" "s \<noteq> u" "in_slice g s i"
    then have sv: "s \<noteq> v" using unsettled by auto
    from relaxed[OF s]
    have e: "\<not> fp_less (add (d ! s) (weights g ! i)) (d ! (neighbors g ! i))"
      by (simp add: edge_ok_def)
    show "edge_ok add g d' s i"
      unfolding edge_ok_def using e lower sv by (auto simp: d'_at)
  qed
  have i5: "inv_source g src st'"
    unfolding inv_source_def sel n_def[symmetric]
    using source vsrc dvc by (auto simp: d'_at ps'_at)
  have i6: "inv_tree add g src st'"
    unfolding inv_tree_def sel n_def[symmetric]
  proof (intro allI impI)
    fix x assume x: "x < n" "x \<noteq> src"
    show "if d' ! x = PosInf then ps' ! x = None
          else tree_edge add g d' ps' x \<and> settled st ! the (ps' ! x)"
    proof (cases "x = v")
      case True
      have "tree_edge add g d' ps' v"
        unfolding tree_edge_def
        using cur(1) j vu ufin
        by (intro exI[of _ u] exI[of _ j]) (simp add: d'_at ps'_at n_def v_def c_def)
      then show ?thesis using True cur(2) cfin by (simp add: d'_at ps'_at)
    next
      case False
      show ?thesis
      proof (cases "d ! x = PosInf")
        case True
        then show ?thesis using tree[OF x] False by (simp add: d'_at ps'_at)
      next
        case fin: False
        with tree[OF x] obtain p i where p: "parent st ! x = Some p" "p < n"
          "in_slice g p i" "neighbors g ! i = x" "d ! p \<noteq> PosInf"
          "d ! x = add (d ! p) (weights g ! i)" "settled st ! p"
          unfolding tree_edge_def n_def by auto
        then have pv: "p \<noteq> v" using unsettled by auto
        have "tree_edge add g d' ps' x"
          unfolding tree_edge_def using p pv False
          by (intro exI[of _ p] exI[of _ i]) (simp add: d'_at ps'_at n_def)
        then show ?thesis using fin False p by (simp add: d'_at ps'_at)
      qed
    qed
  qed
  have i7: "inv_current add g u (Suc j) st'"
    unfolding inv_current_def sel n_def[symmetric]
  proof (intro conjI allI impI)
    show "u < n" "settled st ! u" using cur by auto
  next
    fix i assume i: "in_slice g u i" "i < Suc j"
    show "edge_ok add g d' u i"
    proof (cases "i = j")
      case True
      then show ?thesis using vu by (simp add: edge_ok_def d'_at c_def v_def)
    next
      case False
      with i have "i < j" by simp
      from cur(3)[OF i(1) this] show ?thesis
        unfolding edge_ok_def using lower vu by (auto simp: d'_at)
    qed
  next
    fix s assume s: "s < n" "settled st ! s"
    then have "s \<noteq> v" using unsettled by auto
    then show "\<not> fp_less (d' ! u) (d' ! s)" using cur(4)[OF s] vu by (simp add: d'_at)
  qed
  from i1 i2 i3 i4 i5 i6 i7 have "inner_inv add g src u (Suc j) st'"
    unfolding inner_inv_def by simp
  with r sel(4) show ?thesis by blast
qed

lemma relax_step:
  assumes g: "csr_ok g" "nonneg_weights g" and mono: "monotone_add add"
    and inv: "inner_inv add g src u j st" and j: "in_slice g u j"
  shows "\<exists>st'. relax add g u j st = Inr st' \<and> inner_inv add g src u (Suc j) st' \<and>
           settled st' = settled st"
proof -
  have u: "u < num_vertices g" using inv unfolding inner_inv_def inv_current_def by simp
  have w: "distance_value (weights g ! j)" using csr_weight[OF g u j] .
  have v: "neighbors g ! j < num_vertices g" using csr_neighbor[OF g(1) u j] .
  show ?thesis
  proof (cases "fp_less (add (tentative st ! u) (weights g ! j))
                 (tentative st ! (neighbors g ! j))")
    case True
    from relax_update[OF mono inv w v j True] show ?thesis .
  next
    case False
    from relax_keep[OF inv w False] show ?thesis by auto
  qed
qed

lemma relax_edges_inv:
  assumes g: "csr_ok g" "nonneg_weights g" and mono: "monotone_add add"
  shows "inner_inv add g src u a st \<Longrightarrow> offsets g ! u \<le> a \<Longrightarrow> a \<le> b \<Longrightarrow>
     b \<le> offsets g ! Suc u \<Longrightarrow>
     \<exists>st'. relax_edges add g u [a..<b] st = Inr st' \<and> inner_inv add g src u b st' \<and>
        settled st' = settled st"
proof (induction "b - a" arbitrary: a st)
  case 0
  then show ?case by simp
next
  case (Suc k)
  then have ab: "a < b" by simp
  then have sl: "in_slice g u a" using Suc.prems by (simp add: in_slice_def)
  from relax_step[OF g mono Suc.prems(1) sl] obtain st1 where
    st1: "relax add g u a st = Inr st1" "inner_inv add g src u (Suc a) st1"
      "settled st1 = settled st"
    by blast
  have "k = b - Suc a" using Suc.hyps(2) by simp
  from Suc.hyps(1)[OF this st1(2)] Suc.prems ab obtain st' where
    st': "relax_edges add g u [Suc a..<b] st1 = Inr st'" "inner_inv add g src u b st'"
      "settled st' = settled st1"
    by auto
  have "relax_edges add g u [a..<b] st = Inr st'"
    using ab st1(1) st'(1) by (simp add: upt_conv_Cons)
  then show ?case using st' st1(3) by simp
qed

lemma extract_step:
  assumes inv: "outer_inv add g src st" and f: "frontier st = b # vs"
  defines "u \<equiv> closest (tentative st) b vs"
  defines "st1 \<equiv> st\<lparr>frontier := remove1 u (frontier st), settled := (settled st)[u := True]\<rparr>"
  shows "inner_inv add g src u (offsets g ! u) st1" and "u < num_vertices g"
    and "\<not> settled st ! u"
proof -
  define n where "n = num_vertices g"
  define d where "d = tentative st"
  from inv have I: "inv_shape g st" "inv_front g st" "inv_order g st"
    "inv_relaxed add g (num_vertices g) st" "inv_source g src st" "inv_tree add g src st"
    unfolding outer_inv_def by simp_all
  have shape: "length d = n" "length (parent st) = n" "length (settled st) = n"
    using I(1) unfolding inv_shape_def n_def d_def by simp_all
  have front: "distinct (frontier st)"
      "set (frontier st) = {x. x < n \<and> \<not> settled st ! x \<and> d ! x \<noteq> PosInf}"
    using I(2) unfolding inv_front_def n_def d_def by simp_all
  have order: "\<And>s. s < n \<Longrightarrow> settled st ! s \<Longrightarrow> d ! s \<noteq> PosInf"
      "\<And>s x. s < n \<Longrightarrow> settled st ! s \<Longrightarrow> x < n \<Longrightarrow> \<not> settled st ! x \<Longrightarrow>
         \<not> fp_less (d ! x) (d ! s)"
    using I(3) unfolding inv_order_def n_def d_def by blast+
  have relaxed: "\<And>s i. s < n \<Longrightarrow> settled st ! s \<Longrightarrow> in_slice g s i \<Longrightarrow>
         edge_ok add g d s i"
    using I(4) unfolding inv_relaxed_def n_def d_def by blast
  have source: "inv_source g src st" using I(5) .
  have dv: "\<And>x. x < n \<Longrightarrow> distance_value (d ! x)"
    using I(5) unfolding inv_source_def n_def d_def by blast
  have tree: "\<And>x. x < n \<Longrightarrow> x \<noteq> src \<Longrightarrow>
        (if d ! x = PosInf then parent st ! x = None
         else tree_edge add g d (parent st) x \<and> settled st ! the (parent st ! x))"
    using I(6) unfolding inv_tree_def n_def d_def by blast
  have uF: "u \<in> set (frontier st)" using closest_mem[of d b vs] by (simp add: u_def f d_def)
  then have u: "u < n" "\<not> settled st ! u" "d ! u \<noteq> PosInf" using front(2) by auto
  have dvF: "\<forall>x\<in>set (b # vs). distance_value (d ! x)"
    using front(2) dv unfolding f by auto
  have umin: "\<not> fp_less (d ! x) (d ! u)" if "x \<in> set (frontier st)" for x
    using closest_min[OF dvF, of x] that by (simp add: u_def f d_def)
  have sel: "tentative st1 = d" "parent st1 = parent st"
    "frontier st1 = remove1 u (frontier st)" "settled st1 = (settled st)[u := True]"
    by (simp_all add: st1_def d_def)
  have set_at: "(settled st)[u := True] ! x = (x = u \<or> settled st ! x)" for x
    using u(1) shape(3) by (auto simp: nth_list_update)
  have i1: "inv_shape g st1" using shape by (simp add: inv_shape_def sel n_def)
  have i2: "inv_front g st1"
    unfolding inv_front_def sel n_def[symmetric]
    using front by (auto simp: set_at)
  have i3: "inv_order g st1"
    unfolding inv_order_def sel n_def[symmetric] set_at
  proof (intro allI impI conjI)
    fix s assume s: "s < n" "s = u \<or> settled st ! s"
    show "d ! s \<noteq> PosInf" using s u(3) order(1) by auto
    fix x assume x: "x < n" "\<not> (x = u \<or> settled st ! x)"
    show "\<not> fp_less (d ! x) (d ! s)"
    proof (cases "s = u")
      case True
      show ?thesis
      proof (cases "d ! x = PosInf")
        case True
        then show ?thesis by simp
      next
        case False
        then have "x \<in> set (frontier st)" using x front(2) by simp
        from umin[OF this] show ?thesis using \<open>s = u\<close> by simp
      qed
    next
      case False
      then show ?thesis using s x order(2) by auto
    qed
  qed
  have i4: "inv_relaxed add g u st1"
    unfolding inv_relaxed_def sel n_def[symmetric] set_at
    using relaxed by auto
  have i5: "inv_source g src st1"
    using source by (simp add: inv_source_def sel d_def)
  have i6: "inv_tree add g src st1"
    unfolding inv_tree_def sel n_def[symmetric] set_at
  proof (intro allI impI)
    fix x assume x: "x < n" "x \<noteq> src"
    from tree[OF x]
    show "if d ! x = PosInf then parent st ! x = None
          else tree_edge add g d (parent st) x \<and>
              (the (parent st ! x) = u \<or> settled st ! the (parent st ! x))"
      by (cases "d ! x = PosInf") simp_all
  qed
  have i7: "inv_current add g u (offsets g ! u) st1"
    unfolding inv_current_def sel n_def[symmetric] set_at
  proof (intro conjI allI impI)
    show "u < n" using u by simp
    show "u = u \<or> settled st ! u" by simp
  next
    fix i assume "in_slice g u i" "i < offsets g ! u"
    then show "edge_ok add g d u i" by (simp add: in_slice_def)
  next
    fix s assume "s < n" "s = u \<or> settled st ! s"
    then show "\<not> fp_less (d ! u) (d ! s)" using order(2)[OF _ _ u(1,2)] by auto
  qed
  from i1 i2 i3 i4 i5 i6 i7 show "inner_inv add g src u (offsets g ! u) st1"
    unfolding inner_inv_def by simp
  show "u < num_vertices g" "\<not> settled st ! u" using u by (simp_all add: n_def)
qed

lemma inner_to_outer:
  assumes "inner_inv add g src u (offsets g ! Suc u) st"
  shows "outer_inv add g src st"
proof -
  have "inv_relaxed add g (num_vertices g) st"
    unfolding inv_relaxed_def
  proof (intro allI impI)
    fix s j assume s: "s < num_vertices g" "settled st ! s" "in_slice g s j"
    show "edge_ok add g (tentative st) s j"
    proof (cases "s = u")
      case True
      then have "j < offsets g ! Suc u" using s(3) by (simp add: in_slice_def)
      then show ?thesis using assms s True unfolding inner_inv_def inv_current_def by blast
    next
      case False
      then show ?thesis using assms s unfolding inner_inv_def inv_relaxed_def by blast
    qed
  qed
  then show ?thesis using assms unfolding inner_inv_def outer_inv_def by simp
qed

lemma settle_all_total:
  assumes g: "csr_ok g" "nonneg_weights g" and mono: "monotone_add add"
  shows "outer_inv add g src st \<Longrightarrow>
     \<exists>st'. settle_all add g st = Some (Inr st') \<and> outer_inv add g src st' \<and>
        frontier st' = []"
proof (induction "card (unsettled g st)" arbitrary: st rule: less_induct)
  case less
  show ?case
  proof (cases "frontier st")
    case Nil
    then have "settle_all add g st = Some (Inr st)" by (subst settle_all.simps) simp
    then show ?thesis using less.prems Nil by blast
  next
    case (Cons b vs)
    define u where "u = closest (tentative st) b vs"
    define st1 where
      "st1 = st\<lparr>frontier := remove1 u (frontier st), settled := (settled st)[u := True]\<rparr>"
    from extract_step[OF less.prems Cons]
    have inner: "inner_inv add g src u (offsets g ! u) st1" and u: "u < num_vertices g"
      "\<not> settled st ! u"
      unfolding u_def st1_def by blast+
    have "Suc u < length (offsets g)" using u(1) by (simp add: num_vertices_def)
    then have le: "offsets g ! u \<le> offsets g ! Suc u"
      using g(1) unfolding csr_ok_def by (intro sorted_nth_mono) auto
    from relax_edges_inv[OF g mono inner le_refl le le_refl] obtain st2 where
      st2: "relax_edges add g u [offsets g ! u..<offsets g ! Suc u] st1 = Inr st2"
        "inner_inv add g src u (offsets g ! Suc u) st2" "settled st2 = settled st1"
      by blast
    have outer2: "outer_inv add g src st2" using inner_to_outer[OF st2(2)] .
    have len: "length (settled st) = num_vertices g"
      using less.prems unfolding outer_inv_def inv_shape_def by simp
    have "unsettled g st2 = unsettled g st - {u}"
      unfolding unsettled_def st2(3) using u(1) len
      by (auto simp: st1_def nth_list_update)
    moreover have "card (unsettled g st - {u}) < card (unsettled g st)"
    proof (rule card_Diff1_less)
      show "finite (unsettled g st)" by (simp add: unsettled_def)
      show "u \<in> unsettled g st" using u by (simp add: unsettled_def)
    qed
    ultimately have "card (unsettled g st2) < card (unsettled g st)"
      by simp
    from less.hyps[OF this outer2] obtain st' where
      st': "settle_all add g st2 = Some (Inr st')" "outer_inv add g src st'"
        "frontier st' = []"
      by blast
    have "settle_all add g st =
        (case relax_edges add g u [offsets g ! u..<offsets g ! Suc u] st1 of
           Inl e \<Rightarrow> Some (Inl e) | Inr st2 \<Rightarrow> settle_all add g st2)"
      unfolding u_def st1_def
      by (subst settle_all.simps) (simp only: Cons list.case Let_def)
    then have "settle_all add g st = settle_all add g st2" by (simp add: st2(1))
    then show ?thesis using st' by simp
  qed
qed

lemma unrounded_add_monotone: "monotone_add unrounded_add"
  unfolding monotone_add_def
proof (intro allI impI)
  fix a w :: "real fp"
  assume "distance_value a \<and> distance_value w"
  then show "distance_value (unrounded_add a w) \<and> \<not> fp_less (unrounded_add a w) a"
    by (cases a; cases w) auto
qed

lemma small_graph_sssp:
  "sssp unrounded_add small_graph 0 = Some (Inr \<lparr>distances = [Val 0, Val 3, Val 1],
      predecessors = [None, Some 2, Some 0]\<rparr>)"
  by (simp add: sssp_def small_graph_def num_vertices_def initial_state_def settle_all.simps
      relax_def Let_def upt_conv_Cons)

lemma big_graph_sssp:
  "sssp unrounded_add big_graph 0 = Some (Inr \<lparr>distances = [Val 0, Val (2 ^ 1023), PosInf],
      predecessors = [None, Some 0, None]\<rparr>)"
  by (simp add: sssp_def big_graph_def num_vertices_def initial_state_def settle_all.simps
      relax_def Let_def upt_conv_Cons)

lemma big_graph_reachable: "reachable big_graph 0 2"
proof -
  have n: "num_vertices big_graph = 3" by (simp add: big_graph_def num_vertices_def)
  have s0: "in_slice big_graph 0 0" and s1: "in_slice big_graph 1 1"
    by (simp_all add: in_slice_def big_graph_def)
  have v: "0 < num_vertices big_graph" "1 < num_vertices big_graph" by (simp_all add: n)
  have r0: "reachable big_graph 0 0" by (rule reachable.start) (rule v(1))
  from reachable.edge[OF r0 v(1) s0] have r1: "reachable big_graph 0 1"
    by (simp add: big_graph_def)
  from reachable.edge[OF r1 v(2) s1] show ?thesis by (simp add: big_graph_def)
qed

section \<open>The renumbering engine assigns positions in a duplicate-free list\<close>





section \<open>The claims about the notebook's path reconstruction\<close>

text \<open>
  C10. When every edge weight is \<open>1.0\<close>, every vertex of finite distance \<open>d > 0\<close> has a
  predecessor of distance exactly \<open>d - 1\<close>; consequently the backward walk of the
  notebook, which stores each visited vertex at the index equal to its distance in a list
  of \<open>d(target) + 1\<close> slots, leaves no slot \<open>None\<close> and returns after exactly
  \<open>d(target)\<close> predecessor steps. Here \<open>df\<close> is any result table with the invariant
  of the spec for the weights \<open>w\<close>, and \<open>t\<close> any vertex of finite distance \<open>x\<close>.
\<close>

theorem unit_weight_walk_fills_path:
  assumes "sssp_table df w s" and "\<forall>u v. w u v = 1"
    and "0 \<le> t" "t < int (length df)" "distance (df ! nat t) = Finite x"
  shows "(\<forall>v y. 0 \<le> v \<and> v < int (length df) \<and> distance (df ! nat v) = Finite y \<and> 0 < y \<longrightarrow>
            cell distance df (predecessor (df ! nat v)) = Inr (Finite (y - 1))) \<and>
         (\<exists>vs n. path_to df t = Some (Inr (map Some vs, n)) \<and> x = real n \<and>
            length vs = n + 1 \<and> vs ! n = t \<and>
            (\<forall>j\<le>n. int_distance df (vs ! j) = Inr (int j)))"
proof
  show "\<forall>v y. 0 \<le> v \<and> v < int (length df) \<and> distance (df ! nat v) = Finite y \<and> 0 < y \<longrightarrow>
            cell distance df (predecessor (df ! nat v)) = Inr (Finite (y - 1))"
  proof (intro allI impI)
    fix v y
    assume a: "0 \<le> v \<and> v < int (length df) \<and> distance (df ! nat v) = Finite y \<and> 0 < y"
    then have "v \<noteq> s" using sssp_table_source(3)[OF assms(1)] by auto
    with unit_table_step[OF assms(1,2), of v y] a
    show "cell distance df (predecessor (df ! nat v)) = Inr (Finite (y - 1))"
      by (simp add: cell_def)
  qed
next
  from path_to_unit[OF assms] obtain n vs where
    p: "path_to df t = Some (Inr (map Some (vs @ [t]), n))" and n: "length vs = n" "x = real n"
    and d: "\<forall>j\<le>n. int_distance df ((vs @ [t]) ! j) = Inr (int j)"
    by blast
  then show "\<exists>vs n. path_to df t = Some (Inr (map Some vs, n)) \<and> x = real n \<and>
            length vs = n + 1 \<and> vs ! n = t \<and>
            (\<forall>j\<le>n. int_distance df (vs ! j) = Inr (int j))"
    by (intro exI[of _ "vs @ [t]"] exI[of _ n]) (simp add: nth_append)
qed

text \<open>On the recorded Karate table, for vertex \<open>16\<close> at distance \<open>3\<close>.\<close>

theorem unit_weight_walk_fills_path_witness:
  "\<exists>vs n. path_to karate_df 16 = Some (Inr (map Some vs, n)) \<and> (3::real) = real n \<and>
      length vs = n + 1 \<and> vs ! n = 16 \<and>
      (\<forall>j\<le>n. int_distance karate_df (vs ! j) = Inr (int j))"
  using unit_weight_walk_fills_path[OF karate_table, of 16 3] by (simp add: karate_df_rows)

text \<open>
  C6, as the spec states it: for every result table and every target of finite distance
  the reconstruction returns a sequence from the source to the target whose summed edge
  weight is the target's distance. The notebook's loop indexes the list by \<open>int(distance)\<close>
  and stops at the first vertex whose distance truncates to \<open>0\<close>: on the table of the
  graph with the one edge \<open>0 \<rightarrow> 1\<close> of weight \<open>0.5\<close> it returns \<open>[1]\<close> for target
  \<open>1\<close>, which does not start at the source \<open>0\<close>.
\<close>

theorem path_round_trip_counterexample:
  "sssp_table half_df (\<lambda>u v. 1 / 2) 0 \<and> cell distance half_df 1 = Inr (Finite (1 / 2)) \<and>
   path_to half_df 1 = Some (Inr ([Some 1], 0)) \<and> \<not> round_trip half_df (\<lambda>u v. 1 / 2) 0 1"
  using half_df_table
  by (simp add: round_trip_def those_vertices_def half_df_def notebook_defs walk.simps)

text \<open>
  C6, amended: for every result table with the invariant of the spec in which all edge
  weights are \<open>1.0\<close>, and every target \<open>t\<close> of finite distance, the notebook's
  reconstruction returns a sequence of vertices that starts at the source, ends at \<open>t\<close>,
  follows the predecessor cells, and whose summed edge weight equals \<open>distance[t]\<close>.
\<close>

theorem path_round_trip_unit_weights:
  assumes "sssp_table df w s" and "\<forall>u v. w u v = 1"
    and "0 \<le> t" "t < int (length df)" "distance (df ! nat t) = Finite x"
  shows "round_trip df w s t"
proof -
  from path_to_unit[OF assms] obtain n vs where
    p: "path_to df t = Some (Inr (map Some (vs @ [t]), n))" and n: "length vs = n" "x = real n"
    and l: "linked df (vs @ [t])" and h: "(vs @ [t]) ! 0 = s"
    by blast
  have "those_vertices (map Some (vs @ [t])) = Some (vs @ [t])"
    unfolding those_vertices_def by (auto simp: comp_def)
  moreover have "hd (vs @ [t]) = s" using h by (simp add: hd_conv_nth)
  moreover have "path_weight w (vs @ [t]) = x"
    using path_weight_unit[OF assms(2)] n by simp
  moreover have "cell distance df t = Inr (Finite x)" using assms(3-5) by (simp add: cell_def)
  ultimately show ?thesis unfolding round_trip_def using p l by simp
qed

text \<open>On the recorded Karate table, for source \<open>1\<close> and target \<open>24\<close> at distance \<open>3\<close>.\<close>

theorem path_round_trip_unit_weights_witness: "round_trip karate_df (\<lambda>u v. 1) 1 24"
  using path_round_trip_unit_weights[OF karate_table, of 24 3] by (simp add: karate_df_rows)




section \<open>The claims about the engines of the spec\<close>

text \<open>
  C1, as the spec states it: for every CSR graph with non-negative edge weights and every
  valid source, \<open>distance[source] = 0\<close>, every reachable vertex \<open>v\<close> other than the
  source has \<open>distance[v] = distance[predecessor[v]] + weight(predecessor[v], v)\<close>, and
  no distance can be lowered by relaxing an edge. In \<open>f64\<close> a sum can overflow: on
  the graph \<open>0 \<rightarrow> 1 \<rightarrow> 2\<close> with both weights \<open>2^1023\<close> the relaxation of \<open>1 \<rightarrow> 2\<close>
  computes \<open>+infinity\<close>, which is not below \<open>+infinity\<close>, so the reachable vertex
  \<open>2\<close> keeps the distance \<open>+infinity\<close> and has no predecessor.
\<close>

theorem sssp_reachable_counterexample:
  "csr_ok big_graph \<and> nonneg_weights big_graph \<and> reachable big_graph 0 2 \<and>
   sssp unrounded_add big_graph 0 =
     Some (Inr \<lparr>distances = [Val 0, Val (2 ^ 1023), PosInf],
                predecessors = [None, Some 0, None]\<rparr>) \<and>
   \<not> tree_edge unrounded_add big_graph [Val 0, Val (2 ^ 1023), PosInf]
        [None, Some 0, None] 2"
proof -
  have "csr_ok big_graph" by (simp add: csr_ok_def big_graph_def num_vertices_def)
  moreover have "nonneg_weights big_graph" by (simp add: nonneg_weights_def big_graph_def)
  moreover have "\<not> tree_edge unrounded_add big_graph [Val 0, Val (2 ^ 1023), PosInf]
        [None, Some 0, None] 2"
    by (simp add: tree_edge_def)
  ultimately show ?thesis using big_graph_reachable big_graph_sssp by simp
qed

text \<open>
  C1, amended: for every CSR graph with non-negative edge weights and every valid source,
  SSSP returns a \<open>DistanceArray\<close> with \<open>distance[source] = 0\<close>; every vertex \<open>v\<close>
  other than the source whose distance is finite has
  \<open>distance[v] = distance[predecessor[v]] + weight(predecessor[v], v)\<close>, in the addition
  of the number format, for an edge of the graph; no \<open>distance[v]\<close> can be lowered by
  relaxing any edge (local optimality at termination); and if no relaxation from a vertex
  of finite distance yields \<open>+infinity\<close>, every reachable vertex has a finite distance.
  The engine is the one modelled from the spec, for every number format whose addition is
  monotone.
\<close>

theorem sssp_finite_distances:
  assumes "csr_ok g" "nonneg_weights g" "monotone_add add" "source < num_vertices g"
  shows "\<exists>da. sssp add g source = Some (Inr da) \<and>
      length (distances da) = num_vertices g \<and>
      length (predecessors da) = num_vertices g \<and>
      distances da ! source = Val 0 \<and>
      (\<forall>v. v < num_vertices g \<and> v \<noteq> source \<and> distances da ! v \<noteq> PosInf \<longrightarrow>
          tree_edge add g (distances da) (predecessors da) v) \<and>
      (\<forall>u j. u < num_vertices g \<and> in_slice g u j \<longrightarrow> edge_ok add g (distances da) u j) \<and>
      ((\<forall>u j. u < num_vertices g \<and> in_slice g u j \<and> distances da ! u \<noteq> PosInf \<longrightarrow>
           add (distances da ! u) (weights g ! j) \<noteq> PosInf) \<longrightarrow>
       (\<forall>v. reachable g source v \<longrightarrow> distances da ! v \<noteq> PosInf))"
proof -
  from settle_all_total[OF assms(1,2,3) outer_initial[OF assms(4)]] obtain st where
    st: "settle_all add g (initial_state g source) = Some (Inr st)"
      "outer_inv add g source st" "frontier st = []"
    by blast
  define da where "da = \<lparr>distances = tentative st, predecessors = parent st\<rparr>"
  have run: "sssp add g source = Some (Inr da)"
    using assms(4) st(1) by (simp add: sssp_def da_def)
  have sel: "distances da = tentative st" "predecessors da = parent st"
    by (simp_all add: da_def)
  have len: "length (distances da) = num_vertices g" "length (predecessors da) = num_vertices g"
    using st(2) unfolding outer_inv_def inv_shape_def sel by simp_all
  have src: "distances da ! source = Val 0"
    using st(2) unfolding outer_inv_def inv_source_def sel by simp
  have opt: "edge_ok add g (distances da) u j" if "u < num_vertices g" "in_slice g u j" for u j
  proof (cases "settled st ! u")
    case True
    then show ?thesis using st(2) that unfolding outer_inv_def inv_relaxed_def sel by auto
  next
    case False
    have fr: "set (frontier st) =
        {v. v < num_vertices g \<and> \<not> settled st ! v \<and> tentative st ! v \<noteq> PosInf}"
      using st(2) unfolding outer_inv_def inv_front_def by simp
    have u: "tentative st ! u = PosInf" using False that(1) st(3) fr by auto
    have w: "distance_value (weights g ! j)" using csr_weight[OF assms(1,2) that] .
    have "distance_value (add PosInf (weights g ! j))"
      "\<not> fp_less (add PosInf (weights g ! j)) PosInf"
      using assms(3) w unfolding monotone_add_def by force+
    then have "add PosInf (weights g ! j) = PosInf"
      by (cases "add PosInf (weights g ! j)") auto
    then show ?thesis by (simp add: edge_ok_def sel u)
  qed
  have tree: "tree_edge add g (distances da) (predecessors da) v"
    if "v < num_vertices g" "v \<noteq> source" "distances da ! v \<noteq> PosInf" for v
    using st(2) that unfolding outer_inv_def inv_tree_def sel by auto
  have fin: "distances da ! v \<noteq> PosInf"
    if no: "\<forall>u j. u < num_vertices g \<and> in_slice g u j \<and> distances da ! u \<noteq> PosInf \<longrightarrow>
           add (distances da ! u) (weights g ! j) \<noteq> PosInf"
      and r: "reachable g source v" for v
    using r
  proof induction
    case start
    then show ?case using src by simp
  next
    case (edge u j)
    have dv: "distance_value (distances da ! u)" "distance_value (weights g ! j)"
      using st(2) edge(2) csr_weight[OF assms(1,2) edge(2,3)]
      unfolding outer_inv_def inv_source_def sel by auto
    have c: "distance_value (add (distances da ! u) (weights g ! j))"
      using assms(3) dv unfolding monotone_add_def by blast
    have "add (distances da ! u) (weights g ! j) \<noteq> PosInf" using no edge(2,3,4) by blast
    moreover have "\<not> fp_less (add (distances da ! u) (weights g ! j))
        (distances da ! (neighbors g ! j))"
      using opt[OF edge(2,3)] by (simp add: edge_ok_def)
    ultimately show ?case
      using c by (cases "add (distances da ! u) (weights g ! j)") auto
  qed
  from run len src tree opt fin show ?thesis by blast
qed

text \<open>On the three-vertex graph of weights \<open>4\<close>, \<open>1\<close>, \<open>2\<close>, from source \<open>0\<close>.\<close>

theorem sssp_finite_distances_witness:
  "csr_ok small_graph \<and> nonneg_weights small_graph \<and> monotone_add unrounded_add \<and>
   (\<exists>da. sssp unrounded_add small_graph 0 = Some (Inr da) \<and> distances da ! 0 = Val 0 \<and>
      length (distances da) = 3 \<and> edge_ok unrounded_add small_graph (distances da) 2 2)"
proof -
  have ok: "csr_ok small_graph"
    by (simp add: csr_ok_def small_graph_def num_vertices_def)
  have nn: "nonneg_weights small_graph"
    by (simp add: nonneg_weights_def small_graph_def)
  have src: "0 < num_vertices small_graph"
    by (simp add: small_graph_def num_vertices_def)
  have n: "num_vertices small_graph = 3"
    by (simp add: small_graph_def num_vertices_def)
  have sl: "2 < num_vertices small_graph \<and> in_slice small_graph 2 2"
    by (simp add: small_graph_def num_vertices_def in_slice_def)
  from sssp_finite_distances[OF ok nn unrounded_add_monotone src] obtain da where
    da: "sssp unrounded_add small_graph 0 = Some (Inr da)"
      "length (distances da) = num_vertices small_graph" "distances da ! 0 = Val 0"
      "\<forall>u j. u < num_vertices small_graph \<and> in_slice small_graph u j \<longrightarrow>
         edge_ok unrounded_add small_graph (distances da) u j"
    by blast
  from da(4) sl have "edge_ok unrounded_add small_graph (distances da) 2 2" by blast
  with da(1,2,3) n ok nn unrounded_add_monotone show ?thesis by auto
qed



end
